theory Spec2Isabelle
  imports
    Main
    "HOL-Library.Word"
    "HOL-Library.Multiset"
    "HOL-Library.Product_Lexorder"
    "HOL-Library.List_Lexorder"
begin

section \<open>Strings and characters\<close>

text \<open>
  A Python \<open>str\<close> is modelled as a \<^typ>\<open>string\<close>: a list of characters whose code
  points lie in 0..255.  The library functions that \<open>apps.py\<close> calls on strings
  (\<open>strip\<close>, \<open>lower\<close>, \<open>casefold\<close>, \<open>upper\<close>, \<open>split\<close>, \<open>endswith\<close>, the
  \<open>rot_13\<close> codec, \<open>ntpath.basename\<close>) are written out for that range.
\<close>

definition ord :: "char \<Rightarrow> nat" where
  "ord c = of_char c"

definition chr :: "nat \<Rightarrow> char" where
  "chr n = char_of n"

text \<open>\<open>str.isspace\<close> on one character: the code points 9-13, 28-32, 133 and 160.\<close>

definition isspace :: "char \<Rightarrow> bool" where
  "isspace c = (let n = ord c in
     (9 \<le> n \<and> n \<le> 13) \<or> (28 \<le> n \<and> n \<le> 32) \<or> n = 133 \<or> n = 160)"

definition lstrip :: "string \<Rightarrow> string" where
  "lstrip s = dropWhile isspace s"

definition rstrip :: "string \<Rightarrow> string" where
  "rstrip s = rev (dropWhile isspace (rev s))"

text \<open>\<open>s.strip()\<close>: whitespace removed at both ends.\<close>

definition strip :: "string \<Rightarrow> string" where
  "strip s = lstrip (rstrip s)"

text \<open>
  \<open>str.lower\<close> on one character: A-Z and the capital letters of the Latin-1 block
  (192-222 without the multiplication sign 215) move up by 32.
\<close>

definition lower_chr :: "char \<Rightarrow> char" where
  "lower_chr c = (let n = ord c in
     if (65 \<le> n \<and> n \<le> 90) \<or> (192 \<le> n \<and> n \<le> 222 \<and> n \<noteq> 215) then chr (n + 32) else c)"

definition lower :: "string \<Rightarrow> string" where
  "lower s = map lower_chr s"

text \<open>
  \<open>str.upper\<close> and \<open>str.casefold\<close> leave the 8-bit range (the micro sign, the
  sharp s, y with diaeresis), so their results are lists of code points.
\<close>

definition upper_chr :: "char \<Rightarrow> nat list" where
  "upper_chr c = (let n = ord c in
     if (97 \<le> n \<and> n \<le> 122) \<or> (224 \<le> n \<and> n \<le> 254 \<and> n \<noteq> 247) then [n - 32]
     else if n = 181 then [924]
     else if n = 223 then [83, 83]
     else if n = 255 then [376]
     else [n])"

definition upper :: "string \<Rightarrow> nat list" where
  "upper s = concat (map upper_chr s)"

definition casefold_chr :: "char \<Rightarrow> nat list" where
  "casefold_chr c = (let n = ord c in
     if (65 \<le> n \<and> n \<le> 90) \<or> (192 \<le> n \<and> n \<le> 222 \<and> n \<noteq> 215) then [n + 32]
     else if n = 181 then [956]
     else if n = 223 then [115, 115]
     else [n])"

definition casefold :: "string \<Rightarrow> nat list" where
  "casefold s = concat (map casefold_chr s)"

text \<open>\<open>s.endswith(suffix)\<close>.\<close>

definition endswith :: "'a list \<Rightarrow> 'a list \<Rightarrow> bool" where
  "endswith s suf = (length suf \<le> length s \<and> drop (length s - length suf) s = suf)"

text \<open>
  \<open>s.split(sep)\<close> for a one-character separator: the pieces between the
  separators, in order; never an empty list.
\<close>

fun split :: "string \<Rightarrow> char \<Rightarrow> string list" where
  "split [] sep = [[]]"
| "split (x # xs) sep =
     (if x = sep then [] # split xs sep
      else (x # hd (split xs sep)) # tl (split xs sep))"

section \<open>The rot-13 codec\<close>

text \<open>
  \<open>codecs.decode(value_name, 'rot_13')\<close> is \<open>str.translate(input, rot13_map)\<close>.
  \<open>rot13_map\<close> is the identity on 0..255 updated at the 52 letters; a character
  without an entry is left as it is.
\<close>

definition rot13_map :: "(nat \<times> nat) list" where
  "rot13_map = [
     (0x41, 0x4e), (0x42, 0x4f), (0x43, 0x50), (0x44, 0x51), (0x45, 0x52),
     (0x46, 0x53), (0x47, 0x54), (0x48, 0x55), (0x49, 0x56), (0x4a, 0x57),
     (0x4b, 0x58), (0x4c, 0x59), (0x4d, 0x5a), (0x4e, 0x41), (0x4f, 0x42),
     (0x50, 0x43), (0x51, 0x44), (0x52, 0x45), (0x53, 0x46), (0x54, 0x47),
     (0x55, 0x48), (0x56, 0x49), (0x57, 0x4a), (0x58, 0x4b), (0x59, 0x4c),
     (0x5a, 0x4d),
     (0x61, 0x6e), (0x62, 0x6f), (0x63, 0x70), (0x64, 0x71), (0x65, 0x72),
     (0x66, 0x73), (0x67, 0x74), (0x68, 0x75), (0x69, 0x76), (0x6a, 0x77),
     (0x6b, 0x78), (0x6c, 0x79), (0x6d, 0x7a), (0x6e, 0x61), (0x6f, 0x62),
     (0x70, 0x63), (0x71, 0x64), (0x72, 0x65), (0x73, 0x66), (0x74, 0x67),
     (0x75, 0x68), (0x76, 0x69), (0x77, 0x6a), (0x78, 0x6b), (0x79, 0x6c),
     (0x7a, 0x6d)]"

definition translate_chr :: "(nat \<times> nat) list \<Rightarrow> char \<Rightarrow> char" where
  "translate_chr table c = (case map_of table (ord c) of None \<Rightarrow> c | Some n \<Rightarrow> chr n)"

definition rot_13 :: "string \<Rightarrow> string" where
  "rot_13 s = map (translate_chr rot13_map) s"

definition is_ascii_letter :: "char \<Rightarrow> bool" where
  "is_ascii_letter c = (let n = ord c in (65 \<le> n \<and> n \<le> 90) \<or> (97 \<le> n \<and> n \<le> 122))"

section \<open>Windows paths\<close>

text \<open>
  The program imports \<open>winreg\<close>, so \<open>os.path\<close> is \<open>ntpath\<close>: the separator
  \<open>sep\<close> is the backslash and the alternative separator \<open>altsep\<close> the slash.
\<close>

definition sep :: char where
  "sep = CHR 0x5C"

definition altsep :: char where
  "altsep = CHR ''/''"

definition colon :: char where
  "colon = CHR '':''"

definition seps :: "char set" where
  "seps = {sep, altsep}"

definition unc_prefix :: string where
  "unc_prefix = [sep, sep, CHR ''?'', sep, CHR ''U'', CHR ''N'', CHR ''C'', sep]"

text \<open>\<open>s.replace(old, new)\<close> for one-character arguments.\<close>

definition replace :: "string \<Rightarrow> char \<Rightarrow> char \<Rightarrow> string" where
  "replace s old new = map (\<lambda>c. if c = old then new else c) s"

text \<open>\<open>s.find(c, start)\<close>: the first index from \<open>start\<close> on, \<open>None\<close> for -1.\<close>

definition find :: "string \<Rightarrow> char \<Rightarrow> nat \<Rightarrow> nat option" where
  "find s c start =
     (if c \<in> set (drop start s)
      then Some (start + length (takeWhile (\<lambda>x. x \<noteq> c) (drop start s)))
      else None)"


text \<open>\<open>ntpath.splitdrive\<close>: drive or UNC share, and the rest.\<close>

definition splitdrive :: "string \<Rightarrow> string \<times> string" where
  "splitdrive p =
     (if length p \<ge> 2 then
        (let normp = replace p altsep sep in
         if take 2 normp = [sep, sep] then
           (let start = (if upper (take 8 normp) = map ord unc_prefix then 8 else 2) in
            case find normp sep start of
              None \<Rightarrow> (p, [])
            | Some index \<Rightarrow>
                (case find normp sep (index + 1) of
                   None \<Rightarrow> (p, [])
                 | Some index2 \<Rightarrow> (take index2 p, drop index2 p)))
         else if take 1 (drop 1 normp) = [colon] then (take 2 p, drop 2 p)
         else ([], p))
      else ([], p))"

text \<open>
  The loop of \<open>ntpath.split\<close>: \<open>i = len(p); while i and p[i-1] not in seps: i -= 1\<close>,
  started at \<open>i\<close>.
\<close>

fun last_sep_end :: "string \<Rightarrow> nat \<Rightarrow> nat" where
  "last_sep_end p 0 = 0"
| "last_sep_end p (Suc i) = (if p ! i \<in> seps then Suc i else last_sep_end p i)"

text \<open>\<open>ntpath.basename(p)\<close> is \<open>split(p)[1]\<close>: the rest after the drive, from its last separator on.\<close>

definition basename :: "string \<Rightarrow> string" where
  "basename p = (let (d, p') = splitdrive p; i = last_sep_end p' (length p') in drop i p')"




section \<open>Part 2: usage data\<close>

subsection \<open>\<open>prettify_name\<close>\<close>

definition prettify_name :: "string \<Rightarrow> string" where
  "prettify_name raw_name =
     (let name = strip raw_name;
          name = (if sep \<in> set name then basename name else name);
          name = (if CHR ''!'' \<in> set name then
                    (let parts = split name (CHR ''!'') in
                     if strip (last parts) \<noteq> [] then strip (last parts) else name)
                  else name);
          name = (if endswith (lower name) ''.exe'' then take (length name - 4) name
                  else name)
      in name)"

subsection \<open>Reading the UserAssist keys\<close>

type_synonym byte = "8 word"

datatype error = KeyError | FileNotFoundError | OSError | struct_error | TypeError

text \<open>\<open>FileNotFoundError\<close> is a subclass of \<open>OSError\<close>.\<close>

definition is_OSError :: "error \<Rightarrow> bool" where
  "is_OSError e = (e = OSError \<or> e = FileNotFoundError)"

text \<open>
  \<open>struct.unpack_from("<I", buffer, offset)[0]\<close>: four bytes from \<open>offset\<close>, least
  significant first; \<open>struct.error\<close> when the buffer is too short.
\<close>

definition unpack_from_I :: "byte list \<Rightarrow> nat \<Rightarrow> error + nat" where
  "unpack_from_I buffer offset =
     (if offset + 4 \<le> length buffer
      then Inr (foldr (\<lambda>b acc. unat b + 256 * acc) (take 4 (drop offset buffer)) 0)
      else Inl struct_error)"

text \<open>
  The registry under \<open>HKEY_CURRENT_USER\<close>: a key path that exists has its values
  in enumeration order, each a name and its stored data.  The values under the
  UserAssist keys are binary (\<open>REG_BINARY\<close>).
\<close>

type_synonym reg_values = "(string \<times> byte list) list"
type_synonym registry = "string \<rightharpoonup> reg_values"

definition OpenKey :: "registry \<Rightarrow> string \<Rightarrow> error + reg_values" where
  "OpenKey reg key_path =
     (case reg key_path of None \<Rightarrow> Inl FileNotFoundError | Some key \<Rightarrow> Inr key)"

text \<open>
  The Python object that \<open>winreg\<close> makes of binary data (\<open>Reg2Py\<close>): \<open>None\<close> when the
  data has length zero, a \<open>bytes\<close> object otherwise.  \<^const>\<open>None\<close> stands for Python's
  \<open>None\<close>, \<open>Some data\<close> for \<open>bytes\<close>.
\<close>

definition Reg2Py :: "byte list \<Rightarrow> byte list option" where
  "Reg2Py data = (if data = [] then None else Some data)"

definition EnumValue :: "reg_values \<Rightarrow> nat \<Rightarrow> error + (string \<times> byte list option)" where
  "EnumValue key i =
     (if i < length key then Inr (fst (key ! i), Reg2Py (snd (key ! i))) else Inl OSError)"

text \<open>\<open>len(value_data)\<close>: \<open>TypeError\<close> on \<open>None\<close>.\<close>

definition len :: "byte list option \<Rightarrow> error + nat" where
  "len value_data = (case value_data of None \<Rightarrow> Inl TypeError | Some data \<Rightarrow> Inr (length data))"

text \<open>
  \<open>usage_dict\<close>: a dictionary keeps its keys in insertion order, which \<open>main\<close>
  iterates; assigning to a key that is present keeps its place.
\<close>

type_synonym usage_dict = "(string \<times> nat) list"

definition dict_get :: "('k \<times> 'v) list \<Rightarrow> 'k \<Rightarrow> 'v \<Rightarrow> 'v" where
  "dict_get d k dflt = (case map_of d k of None \<Rightarrow> dflt | Some v \<Rightarrow> v)"

fun dict_set :: "('k \<times> 'v) list \<Rightarrow> 'k \<Rightarrow> 'v \<Rightarrow> ('k \<times> 'v) list" where
  "dict_set [] k v = [(k, v)]"
| "dict_set ((k', v') # d) k v = (if k' = k then (k, v) # d else (k', v') # dict_set d k v)"

definition USERASSIST_GUIDS :: "string list" where
  "USERASSIST_GUIDS =
     [''{CEBFF5CD-ACE2-4F4F-9178-9926F41749EA}'',
      ''{F2A1CB5A-E3CC-4A2E-AF9D-505A7009D442}'']"

definition key_path :: "string \<Rightarrow> string" where
  "key_path guid =
     ''Software'' @ [sep] @ ''Microsoft'' @ [sep] @ ''Windows'' @ [sep] @ ''CurrentVersion''
       @ [sep] @ ''Explorer'' @ [sep] @ ''UserAssist'' @ [sep] @ guid @ [sep] @ ''Count''"

text \<open>
  Lines 87-93: one value of the key decoded into the application name and its
  usage count.
\<close>

definition decode_value :: "string \<Rightarrow> byte list option \<Rightarrow> error + (string \<times> nat)" where
  "decode_value value_name value_data =
     (let decoded_name = rot_13 value_name in
      case len value_data of
        Inl e \<Rightarrow> Inl e
      | Inr n \<Rightarrow>
          (case (if n \<ge> 8 then
                   (case value_data of
                      None \<Rightarrow> Inl TypeError
                    | Some data \<Rightarrow> unpack_from_I data 4)
                 else Inr 0) of
             Inl e \<Rightarrow> Inl e
           | Inr usage_count \<Rightarrow> Inr (prettify_name decoded_name, usage_count)))"

text \<open>
  The \<open>while True\<close> loop over \<open>EnumValue(key, i)\<close>, left by \<open>break\<close> at the
  \<open>OSError\<close> that ends the enumeration.
\<close>

function enum_loop :: "reg_values \<Rightarrow> nat \<Rightarrow> usage_dict \<Rightarrow> error + usage_dict" where
  "enum_loop key i usage_dict =
     (case EnumValue key i of
        Inl e \<Rightarrow> (if is_OSError e then Inr usage_dict else Inl e)
      | Inr (value_name, value_data) \<Rightarrow>
          (case decode_value value_name value_data of
             Inl e \<Rightarrow> (if is_OSError e then Inr usage_dict else Inl e)
           | Inr (app_name, usage_count) \<Rightarrow>
               enum_loop key (i + 1)
                 (dict_set usage_dict app_name
                    (dict_get usage_dict app_name 0 + usage_count))))"
  by pat_completeness auto
termination
  by (relation "measure (\<lambda>(key, i, usage_dict). length key - i)")
     (auto simp: EnumValue_def split: if_splits)

declare enum_loop.simps [simp del]

text \<open>
  The loop over the GUIDs, with \<open>except FileNotFoundError: pass\<close> around the
  opening of the key and the inner loop.  The inner loop catches every \<open>OSError\<close>
  itself; the only error that leaves it is a \<open>TypeError\<close> (lemma \<open>enum_loop_fold\<close>
  below), so the handler only ever catches the error of \<open>OpenKey\<close>.
\<close>

fun guid_loop :: "registry \<Rightarrow> string list \<Rightarrow> usage_dict \<Rightarrow> error + usage_dict" where
  "guid_loop reg [] usage_dict = Inr usage_dict"
| "guid_loop reg (guid # guids) usage_dict =
     (case OpenKey reg (key_path guid) of
        Inl e \<Rightarrow> (if e = FileNotFoundError then guid_loop reg guids usage_dict else Inl e)
      | Inr key \<Rightarrow>
          (case enum_loop key 0 usage_dict of
             Inl e \<Rightarrow> (if e = FileNotFoundError then guid_loop reg guids usage_dict else Inl e)
           | Inr usage_dict' \<Rightarrow> guid_loop reg guids usage_dict'))"

definition get_userassist_usage :: "registry \<Rightarrow> error + usage_dict" where
  "get_userassist_usage reg = guid_loop reg USERASSIST_GUIDS []"

section \<open>Part 1: Start Menu shortcuts\<close>









section \<open>Part 3: the combined list and the export\<close>

type_synonym entry = "string \<times> nat \<times> bool"

text \<open>
  \<open>list.sort(key=f)\<close> is a stable sort, as \<^const>\<open>sort_key\<close> is; with
  \<open>reverse=True\<close> the list is reversed before and after, which keeps entries with
  equal keys in their original order.
\<close>

definition sort_reverse :: "('a \<Rightarrow> 'k::linorder) \<Rightarrow> 'a list \<Rightarrow> 'a list" where
  "sort_reverse f xs = rev (sort_key f (rev xs))"

text \<open>The key of line 187, \<open>lambda x: (not x[2], x[1])\<close>; tuples compare lexicographically.\<close>

definition final_key :: "entry \<Rightarrow> bool \<times> nat" where
  "final_key x = (\<not> snd (snd x), fst (snd x))"

text \<open>
  Lines 177-187 of \<open>main\<close>, which build and sort \<open>final_list\<close>.  \<open>start_menu_apps\<close> is the set of shortcut names in
  the order in which the \<open>for\<close> loop iterates it.
\<close>

definition main_final_list :: "string list \<Rightarrow> usage_dict \<Rightarrow> entry list" where
  "main_final_list start_menu_apps usage_dict =
     sort_reverse final_key
       (map (\<lambda>sm_app. (sm_app, dict_get usage_dict sm_app 0, True)) start_menu_apps
        @ map (\<lambda>(ua_app, ua_count). (ua_app, ua_count, False))
            (filter (\<lambda>(ua_app, ua_count). ua_app \<notin> set start_menu_apps) usage_dict))"

text \<open>
  The file is opened with \<open>open(filename, "w", encoding="utf-8")\<close>, in text mode
  with the default \<open>newline\<close>: on Windows, where the program runs, every \<open>\n\<close>
  written becomes \<open>\r\n\<close>, and the characters are stored in UTF-8.  The file is
  modelled by the bytes written to it.
\<close>

definition translate_newlines :: "string \<Rightarrow> string" where
  "translate_newlines s = concat (map (\<lambda>c. if c = CHR 10 then [CHR 13, CHR 10] else [c]) s)"

definition encode_utf8 :: "string \<Rightarrow> byte list" where
  "encode_utf8 s =
     concat (map (\<lambda>c. let n = ord c in
                        if n < 128 then [of_nat n]
                        else [of_nat (192 + n div 64), of_nat (128 + n mod 64)]) s)"

text \<open>\<open>f.write(s)\<close> on the bytes written so far.\<close>

definition file_write :: "byte list \<Rightarrow> string \<Rightarrow> byte list" where
  "file_write f s = f @ encode_utf8 (translate_newlines s)"

text \<open>
  \<open>on_save_as_txt\<close>: \<open>filename\<close> is what the save dialog returned, empty when it
  was cancelled.  The result is the content of the file written under that name,
  \<open>None\<close> when nothing is opened.
\<close>

fun write_loop :: "string list \<Rightarrow> byte list \<Rightarrow> byte list" where
  "write_loop [] f = f"
| "write_loop (app_name # names) f = write_loop names (file_write f (app_name @ [CHR 10]))"

definition on_save_as_txt :: "string \<Rightarrow> entry list \<Rightarrow> byte list option" where
  "on_save_as_txt filename final_list =
     (if filename \<noteq> [] then
        (let start_menu_only =
               map fst (filter (\<lambda>(app_name, _, is_start_menu). is_start_menu) final_list);
             start_menu_only = sort_key casefold start_menu_only
         in Some (write_loop start_menu_only []))
      else None)"

section \<open>The name normalizer as a sequence of steps\<close>

text \<open>
  The specification describes \<open>prettify_name\<close> as a function \<open>normalize\<close> made of
  steps.  The definitions of this section follow its words; they are compared with
  \<open>prettify_name\<close> below.
\<close>

text \<open>The substring after the last occurrence of a character (the whole string when there is none).\<close>

definition after_last :: "char \<Rightarrow> string \<Rightarrow> string" where
  "after_last c s = rev (takeWhile (\<lambda>x. x \<noteq> c) (rev s))"

text \<open>If the string contains a path separator, reduce it to its final path component.\<close>

definition reduce_path :: "string \<Rightarrow> string" where
  "reduce_path s = (if sep \<in> set s then basename s else s)"

text \<open>
  The \<open>!\<close> rule: the segment after the last \<open>!\<close>, without its surrounding
  whitespace, when that is not empty; the string itself otherwise.
\<close>

definition bang_rule :: "string \<Rightarrow> string" where
  "bang_rule s =
     (if CHR ''!'' \<in> set s \<and> strip (after_last (CHR ''!'') s) \<noteq> []
      then strip (after_last (CHR ''!'') s) else s)"

text \<open>A trailing \<open>.exe\<close>, in any letter case, is removed.\<close>

definition dot_exe_spellings :: "string list" where
  "dot_exe_spellings =
     [''.exe'', ''.exE'', ''.eXe'', ''.eXE'', ''.Exe'', ''.ExE'', ''.EXe'', ''.EXE'']"

definition strip_exe :: "string \<Rightarrow> string" where
  "strip_exe s =
     (if 4 \<le> length s \<and> drop (length s - 4) s \<in> set dot_exe_spellings
      then take (length s - 4) s else s)"

definition normalize :: "string \<Rightarrow> string" where
  "normalize raw = strip_exe (bang_rule (reduce_path (strip raw)))"

section \<open>The raw records of the usage store\<close>

text \<open>
  The values of one section of the store (none when its key is missing), all the
  records in the order in which they are read, the name and the count that a record
  decodes to, and the update of the dictionary by one record (line 96).
\<close>

definition section_values :: "registry \<Rightarrow> string \<Rightarrow> reg_values" where
  "section_values reg guid = (case reg (key_path guid) of None \<Rightarrow> [] | Some key \<Rightarrow> key)"

definition records :: "registry \<Rightarrow> reg_values" where
  "records reg = concat (map (section_values reg) USERASSIST_GUIDS)"

definition record_name :: "string \<times> byte list \<Rightarrow> string" where
  "record_name r = (case decode_value (fst r) (Reg2Py (snd r)) of Inl e \<Rightarrow> [] | Inr (name, usage_count) \<Rightarrow> name)"

definition record_count :: "string \<times> byte list \<Rightarrow> nat" where
  "record_count r = (case decode_value (fst r) (Reg2Py (snd r)) of Inl e \<Rightarrow> 0 | Inr (name, usage_count) \<Rightarrow> usage_count)"

definition add_record :: "string \<times> byte list \<Rightarrow> usage_dict \<Rightarrow> usage_dict" where
  "add_record r usage_dict =
     dict_set usage_dict (record_name r) (dict_get usage_dict (record_name r) 0 + record_count r)"


section \<open>Bytes of ASCII text\<close>

text \<open>The bytes of a string of ASCII characters, one byte for each character.\<close>

definition ascii :: "string \<Rightarrow> byte list" where
  "ascii s = map (\<lambda>c. of_nat (ord c)) s"

section \<open>Properties\<close>

subsection \<open>Characters\<close>

lemma ord_chr: "n < 256 \<Longrightarrow> ord (chr n) = n"
  by (simp add: ord_def chr_def)

lemma chr_ord: "chr (ord c) = c"
  by (simp add: ord_def chr_def)

subsection \<open>The rot-13 codec\<close>

lemma rot13_map_symmetric:
  "\<forall>(a, b) \<in> set rot13_map. map_of rot13_map b = Some a \<and> b < 256"
  by (simp add: rot13_map_def)

lemma rot13_map_keys: "map fst rot13_map = [65..<91] @ [97..<123]"
  by code_simp

lemma rot13_map_None:
  "\<not> ((65 \<le> n \<and> n \<le> 90) \<or> (97 \<le> n \<and> n \<le> 122)) \<Longrightarrow> map_of rot13_map n = None"
proof -
  assume a: "\<not> ((65 \<le> n \<and> n \<le> 90) \<or> (97 \<le> n \<and> n \<le> 122))"
  have "fst ` set rot13_map = set (map fst rot13_map)" by simp
  also have "\<dots> = {65..<91} \<union> {97..<123}"
    unfolding rot13_map_keys by (simp only: set_append set_upt)
  finally have "n \<notin> fst ` set rot13_map" using a by auto
  then show ?thesis by (simp only: map_of_eq_None_iff not_False_eq_True)
qed

lemma translate_rot13_twice:
  "translate_chr rot13_map (translate_chr rot13_map c) = c"
proof (cases "map_of rot13_map (ord c)")
  case None
  then show ?thesis by (simp add: translate_chr_def)
next
  case (Some n)
  then have "(ord c, n) \<in> set rot13_map" by (rule map_of_SomeD)
  with rot13_map_symmetric have "map_of rot13_map n = Some (ord c)" and "n < 256"
    by auto
  then show ?thesis using Some by (simp add: translate_chr_def ord_chr chr_ord)
qed

lemma translate_rot13_other:
  "\<not> is_ascii_letter c \<Longrightarrow> translate_chr rot13_map c = c"
  by (simp add: translate_chr_def is_ascii_letter_def Let_def rot13_map_None)

text \<open>
  Claim C4.  The rot-13 decoding of key names is a function on all strings (so
  total and deterministic); applying it twice gives the string back; it keeps the
  length, and every character that is not one of the letters A-Z, a-z stays
  where it is, unchanged.
\<close>

theorem rot_13_involution:
  "rot_13 (rot_13 s) = s \<and> length (rot_13 s) = length s
   \<and> (\<forall>i < length s. \<not> is_ascii_letter (s ! i) \<longrightarrow> rot_13 s ! i = s ! i)"
  by (simp add: rot_13_def translate_rot13_twice translate_rot13_other comp_def)

theorem rot_13_involution_witness:
  "rot_13 (rot_13 ''Abg1!'') = ''Abg1!'' \<and> rot_13 ''Abg1!'' = ''Not1!''
   \<and> (3::nat) < length ''Abg1!'' \<and> \<not> is_ascii_letter (''Abg1!'' ! 3)
   \<and> rot_13 ''Abg1!'' ! 3 = ''Abg1!'' ! 3"
proof -
  have a: "rot_13 ''Abg1!'' = ''Not1!''" by code_simp
  have b: "\<not> is_ascii_letter (''Abg1!'' ! 3)" by code_simp
  have c: "(3::nat) < length ''Abg1!''" by simp
  from rot_13_involution [of "''Abg1!''"]
  have "rot_13 (rot_13 ''Abg1!'') = ''Abg1!''"
    and "\<forall>i < length ''Abg1!''. \<not> is_ascii_letter (''Abg1!'' ! i)
           \<longrightarrow> rot_13 ''Abg1!'' ! i = ''Abg1!'' ! i"
    by blast+
  with a b c show ?thesis by blast
qed

subsection \<open>The order of the combined list\<close>

text \<open>
  The list is in descending order of the key: an entry with the Start Menu flag is
  followed by flagged entries only, and among entries with the same flag the counts
  descend.
\<close>

lemma sort_reverse_descending: "sorted_wrt (\<lambda>x y. f y \<le> f x) (sort_reverse f xs)"
proof -
  have "sorted (map f (sort_key f (rev xs)))" by (rule sorted_sort_key)
  then have "sorted_wrt (\<lambda>x y. f x \<le> f y) (sort_key f (rev xs))"
    by (simp add: sorted_map)
  then show ?thesis by (simp add: sort_reverse_def sorted_wrt_rev)
qed

lemma main_final_list_known_last:
  assumes "i < j" and "j < length (main_final_list start_menu_apps usage_dict)"
    and "snd (snd (main_final_list start_menu_apps usage_dict ! i))"
  shows "snd (snd (main_final_list start_menu_apps usage_dict ! j))"
proof -
  let ?l = "main_final_list start_menu_apps usage_dict"
  have "sorted_wrt (\<lambda>x y. final_key y \<le> final_key x) ?l"
    unfolding main_final_list_def by (rule sort_reverse_descending)
  then have "final_key (?l ! j) \<le> final_key (?l ! i)"
    using assms(1,2) by (rule sorted_wrt_nth_less)
  with assms(3) show ?thesis by (auto simp: final_key_def less_eq_prod_def)
qed

lemma main_final_list_count_descending:
  assumes "i < j" and "j < length (main_final_list start_menu_apps usage_dict)"
    and "snd (snd (main_final_list start_menu_apps usage_dict ! i))
          = snd (snd (main_final_list start_menu_apps usage_dict ! j))"
  shows "fst (snd (main_final_list start_menu_apps usage_dict ! j))
          \<le> fst (snd (main_final_list start_menu_apps usage_dict ! i))"
proof -
  let ?l = "main_final_list start_menu_apps usage_dict"
  have "sorted_wrt (\<lambda>x y. final_key y \<le> final_key x) ?l"
    unfolding main_final_list_def by (rule sort_reverse_descending)
  then have "final_key (?l ! j) \<le> final_key (?l ! i)"
    using assms(1,2) by (rule sorted_wrt_nth_less)
  with assms(3) show ?thesis by (auto simp: final_key_def less_eq_prod_def)
qed

text \<open>
  Claim C1.  The comment of line 186 and the window title say that Start Menu
  entries come first.  The key \<open>(not x[2], x[1])\<close> sorted with \<open>reverse=True\<close>
  puts the entries that are not Start Menu shortcuts first: for the
  shortcut \<open>Notepad\<close> and the usage \<open>Notepad: 2, Paint: 10\<close> the list starts
  with \<open>Paint\<close>.
\<close>

theorem main_final_list_notepad_paint:
  "main_final_list [''Notepad''] [(''Notepad'', 2), (''Paint'', 10)]
     = [(''Paint'', 10, False), (''Notepad'', 2, True)]"
  by (simp add: main_final_list_def sort_reverse_def final_key_def dict_get_def)

subsection \<open>\<open>prettify_name\<close> step by step\<close>

lemma ord_eq_chr: "ord c = n \<Longrightarrow> c = chr n"
  using chr_ord [of c] by simp

lemma lower_chr_cases:
  "lower_chr c = d \<Longrightarrow>
     c = d \<or> (ord d = ord c + 32
              \<and> ((65 \<le> ord c \<and> ord c \<le> 90) \<or> (192 \<le> ord c \<and> ord c \<le> 222)))"
  by (auto simp: lower_chr_def Let_def ord_chr split: if_splits)

lemma lower_chr_dot: "lower_chr c = CHR ''.'' \<Longrightarrow> c = CHR ''.''"
  by (drule lower_chr_cases) (auto simp: ord_def)

lemma lower_chr_e: "lower_chr c = CHR ''e'' \<Longrightarrow> c = CHR ''e'' \<or> c = CHR ''E''"
proof -
  assume "lower_chr c = CHR ''e''"
  then have "c = CHR ''e'' \<or> ord c = 69" by (auto dest!: lower_chr_cases simp: ord_def)
  moreover have "chr 69 = CHR ''E''" by code_simp
  ultimately show ?thesis by (auto dest: ord_eq_chr)
qed

lemma lower_chr_x: "lower_chr c = CHR ''x'' \<Longrightarrow> c = CHR ''x'' \<or> c = CHR ''X''"
proof -
  assume "lower_chr c = CHR ''x''"
  then have "c = CHR ''x'' \<or> ord c = 88" by (auto dest!: lower_chr_cases simp: ord_def)
  moreover have "chr 88 = CHR ''X''" by code_simp
  ultimately show ?thesis by (auto dest: ord_eq_chr)
qed

lemma lower_dot_exe: "lower t = ''.exe'' \<longleftrightarrow> t \<in> set dot_exe_spellings"
proof
  assume l: "lower t = ''.exe''"
  then obtain a b c d where t: "t = [a, b, c, d]"
    by (auto simp: lower_def map_eq_Cons_conv)
  with l have "lower_chr a = CHR ''.''" "lower_chr b = CHR ''e''"
    "lower_chr c = CHR ''x''" "lower_chr d = CHR ''e''"
    by (simp_all add: lower_def)
  then have "a = CHR ''.''" "b = CHR ''e'' \<or> b = CHR ''E''"
    "c = CHR ''x'' \<or> c = CHR ''X''" "d = CHR ''e'' \<or> d = CHR ''E''"
    by (auto dest: lower_chr_dot lower_chr_e lower_chr_x)
  then show "t \<in> set dot_exe_spellings"
    unfolding t dot_exe_spellings_def by auto
next
  have "\<forall>t \<in> set dot_exe_spellings. lower t = ''.exe''" by code_simp
  moreover assume "t \<in> set dot_exe_spellings"
  ultimately show "lower t = ''.exe''" by blast
qed

lemma strip_exe_lower:
  "strip_exe s =
     (if 4 \<le> length s \<and> lower (drop (length s - 4) s) = ''.exe''
      then take (length s - 4) s else s)"
  by (simp add: strip_exe_def lower_dot_exe)

lemma split_not_Nil: "split s c \<noteq> []"
  by (cases s) auto

lemma split_no_sep: "c \<notin> set s \<Longrightarrow> split s c = [s]"
  by (induction s) auto

lemma tl_split_append: "tl (split (a @ c # b) c) \<noteq> []"
  by (induction a) (auto simp: split_not_Nil)

lemma last_split_append: "last (split (a @ c # b) c) = last (split b c)"
  by (induction a) (auto simp: split_not_Nil last_tl tl_split_append)

lemma after_last_no_sep: "c \<notin> set s \<Longrightarrow> after_last c s = s"
proof -
  assume "c \<notin> set s"
  then have *: "takeWhile (\<lambda>x. x \<noteq> c) (rev s) = rev s"
    by auto
  show ?thesis unfolding after_last_def * by (rule rev_rev_ident)
qed

lemma after_last_append: "c \<notin> set b \<Longrightarrow> after_last c (a @ c # b) = b"
proof -
  assume "c \<notin> set b"
  then have *: "takeWhile (\<lambda>x. x \<noteq> c) (rev b @ c # rev a) = rev b"
    by (auto simp: takeWhile_tail)
  show ?thesis unfolding after_last_def rev_append rev.simps append_assoc append_Cons append_Nil *
    by (rule rev_rev_ident)
qed

text \<open>\<open>parts[-1]\<close> of \<open>name.split('!')\<close> is the substring after the last \<open>!\<close>.\<close>

lemma last_split: "last (split s c) = after_last c s"
proof (cases "c \<in> set s")
  case True
  then obtain a b where s: "s = a @ c # b" and b: "c \<notin> set b"
    by (auto dest: split_list_last)
  then show ?thesis by (simp add: last_split_append split_no_sep after_last_append)
next
  case False
  then show ?thesis by (simp add: split_no_sep after_last_no_sep)
qed

lemma endswith_map:
  "endswith (map f s) suf \<longleftrightarrow>
     length suf \<le> length s \<and> map f (drop (length s - length suf) s) = suf"
  by (simp add: endswith_def drop_map)

lemma endswith_lower_exe:
  "endswith (lower s) ''.exe'' \<longleftrightarrow> 4 \<le> length s \<and> lower (drop (length s - 4) s) = ''.exe''"
proof -
  have "length ''.exe'' = 4" by simp
  then show ?thesis unfolding lower_def endswith_map by (simp only:)
qed

lemma reduce_path_if: "(if sep \<in> set n then basename n else n) = reduce_path n"
  by (simp add: reduce_path_def)

lemma bang_rule_if:
  "(if CHR ''!'' \<in> set n then
      (let parts = split n (CHR ''!'') in
       if strip (last parts) \<noteq> [] then strip (last parts) else n)
    else n) = bang_rule n"
  by (simp add: bang_rule_def last_split)

lemma strip_exe_if:
  "(if endswith (lower n) ''.exe'' then take (length n - 4) n else n) = strip_exe n"
  by (simp add: strip_exe_lower endswith_lower_exe)

lemma prettify_name_normalize: "prettify_name raw = normalize raw"
  unfolding prettify_name_def normalize_def
  by (simp only: Let_def[of "strip raw"] reduce_path_if Let_def[of "reduce_path _"] bang_rule_if
      Let_def[of "bang_rule _"] strip_exe_if Let_def[of "strip_exe _"])

subsection \<open>Whitespace, suffixes and the \<open>!\<close> rule\<close>

lemma dropWhile_all_Nil: "(\<forall>x \<in> set (dropWhile P xs). P x) \<longleftrightarrow> (\<forall>x \<in> set xs. P x)"
proof
  assume a: "\<forall>x \<in> set (dropWhile P xs). P x"
  have "dropWhile P xs = []"
  proof (rule ccontr)
    assume n: "dropWhile P xs \<noteq> []"
    then have "\<not> P (hd (dropWhile P xs))" by (rule hd_dropWhile)
    moreover have "hd (dropWhile P xs) \<in> set (dropWhile P xs)" using n by simp
    ultimately show False using a by blast
  qed
  then show "\<forall>x \<in> set xs. P x" by simp
next
  assume "\<forall>x \<in> set xs. P x"
  then show "\<forall>x \<in> set (dropWhile P xs). P x" by (auto dest: set_dropWhileD)
qed

lemma strip_eq_Nil_iff: "strip s = [] \<longleftrightarrow> (\<forall>c \<in> set s. isspace c)"
  by (simp add: strip_def lstrip_def rstrip_def dropWhile_all_Nil)

lemma rstrip_last: "rstrip s \<noteq> [] \<Longrightarrow> \<not> isspace (last (rstrip s))"
  unfolding rstrip_def
  by (metis (full_types) Nil_is_rev_conv hd_dropWhile last_rev)

lemma strip_last: "strip s \<noteq> [] \<Longrightarrow> \<not> isspace (last (strip s))"
proof -
  assume a: "strip s \<noteq> []"
  then have r: "rstrip s \<noteq> []" by (auto simp: strip_def lstrip_def)
  have "\<exists>k. strip s = drop k (rstrip s)"
    unfolding strip_def lstrip_def by (metis dropWhile_eq_drop)
  then obtain k where k: "strip s = drop k (rstrip s)" ..
  with a have "k < length (rstrip s)" by auto
  then have "last (strip s) = last (rstrip s)" by (simp add: k)
  with rstrip_last[OF r] show ?thesis by simp
qed

lemma strip_hd: "strip s \<noteq> [] \<Longrightarrow> \<not> isspace (hd (strip s))"
  unfolding strip_def lstrip_def by (rule hd_dropWhile)

lemma splitdrive_snd_cases:
  "snd (splitdrive p) = p \<or> snd (splitdrive p) = [] \<or> (\<exists>k. snd (splitdrive p) = drop k p)"
  by (auto simp: splitdrive_def Let_def split: option.splits)

lemma splitdrive_snd_drop: "\<exists>k. snd (splitdrive p) = drop k p"
proof -
  have "p = drop 0 p" by simp
  moreover have "[] = drop (length p) p" by simp
  ultimately show ?thesis using splitdrive_snd_cases [of p] by metis
qed

lemma basename_drop: "\<exists>k. basename p = drop k p"
proof -
  obtain k where "snd (splitdrive p) = drop k p" using splitdrive_snd_drop by blast
  then show ?thesis
    by (auto simp: basename_def Let_def split: prod.splits)
qed

lemma after_last_drop: "\<exists>k. after_last c s = drop k s"
proof (cases "c \<in> set s")
  case True
  then obtain a b where s: "s = a @ c # b" and b: "c \<notin> set b"
    by (auto dest: split_list_last)
  then have "after_last c s = drop (Suc (length a)) s" by (simp add: after_last_append)
  then show ?thesis ..
next
  case False
  then have "after_last c s = drop 0 s" by (simp add: after_last_no_sep)
  then show ?thesis ..
qed

lemma after_last_Nil: "c \<in> set s \<Longrightarrow> after_last c s = [] \<Longrightarrow> s \<noteq> [] \<and> last s = c"
proof -
  assume "c \<in> set s" and e: "after_last c s = []"
  then obtain a b where s: "s = a @ c # b" and b: "c \<notin> set b"
    by (auto dest: split_list_last)
  with e have "b = []" by (simp add: after_last_append)
  with s show ?thesis by simp
qed

lemma lower_chr_bang: "lower_chr (CHR ''!'') \<noteq> CHR ''e''"
  by code_simp

lemma strip_exe_last: "s \<noteq> [] \<Longrightarrow> lower_chr (last s) \<noteq> CHR ''e'' \<Longrightarrow> strip_exe s = s"
proof -
  assume s: "s \<noteq> []" and l: "lower_chr (last s) \<noteq> CHR ''e''"
  have "lower (drop (length s - 4) s) \<noteq> ''.exe''" if "4 \<le> length s"
  proof
    assume e: "lower (drop (length s - 4) s) = ''.exe''"
    have "drop (length s - 4) s \<noteq> []" using s that by simp
    then have "last (lower (drop (length s - 4) s)) = lower_chr (last (drop (length s - 4) s))"
      unfolding lower_def by (rule last_map)
    also have "last (drop (length s - 4) s) = last s" using s that by simp
    finally show False using l e by simp
  qed
  then show ?thesis by (auto simp: strip_exe_lower)
qed

lemma reduce_path_drop: "\<exists>k. reduce_path s = drop k s"
proof (cases "sep \<in> set s")
  case True
  then show ?thesis using basename_drop [of s] by (simp add: reduce_path_def)
next
  case False
  then have "reduce_path s = drop 0 s" by (simp add: reduce_path_def)
  then show ?thesis ..
qed

lemma drop_last_not_space:
  assumes "s \<noteq> [] \<longrightarrow> \<not> isspace (last s)" and "t = drop k s" and "t \<noteq> []"
  shows "\<not> isspace (last t)"
proof -
  from assms(2,3) have "k < length s" by auto
  then have "last t = last s" by (simp add: assms(2))
  moreover from assms(2,3) have "s \<noteq> []" by auto
  ultimately show ?thesis using assms(1) by simp
qed

lemma blank_segment_kept:
  assumes bang: "CHR ''!'' \<in> set (reduce_path (strip raw))"
    and blank: "strip (after_last (CHR ''!'') (reduce_path (strip raw))) = []"
  shows "strip_exe (reduce_path (strip raw)) = reduce_path (strip raw)"
proof -
  let ?n = "reduce_path (strip raw)"
  let ?seg = "after_last (CHR ''!'') ?n"
  from bang have n: "?n \<noteq> []" by auto
  obtain k where k: "?n = drop k (strip raw)" using reduce_path_drop by blast
  have sl: "strip raw \<noteq> [] \<longrightarrow> \<not> isspace (last (strip raw))" by (simp add: strip_last)
  obtain j where j: "?seg = drop j ?n" using after_last_drop by blast
  have "?seg = []"
  proof (rule ccontr)
    assume ne: "?seg \<noteq> []"
    have "?n \<noteq> [] \<longrightarrow> \<not> isspace (last ?n)"
      using drop_last_not_space [OF sl k] by blast
    then have "\<not> isspace (last ?seg)" using drop_last_not_space [OF _ j ne] by blast
    moreover have "last ?seg \<in> set ?seg" using ne by simp
    ultimately show False using blank by (auto simp: strip_eq_Nil_iff)
  qed
  with bang have "last ?n = CHR ''!''" by (auto dest: after_last_Nil)
  with n show ?thesis by (simp add: strip_exe_last lower_chr_bang)
qed



lemma strip_decomp:
  assumes pre: "list_all isspace pre" and post: "list_all isspace post"
    and t: "t = [] \<or> (\<not> isspace (hd t) \<and> \<not> isspace (last t))"
  shows "strip (pre @ t @ post) = t"
proof (cases "t = []")
  case True
  with pre post show ?thesis by (auto simp: strip_eq_Nil_iff list_all_iff)
next
  case False
  with t have h: "\<not> isspace (hd t)" and l: "\<not> isspace (last t)" by simp_all
  from False obtain x xs where rt: "rev t = x # xs" by (cases "rev t") auto
  with False have x: "x = last t" by (metis last_rev list.sel(1) rev_rev_ident)
  have "dropWhile isspace (rev post @ rev t @ rev pre) = dropWhile isspace (rev t @ rev pre)"
    using post by (intro dropWhile_append2) (simp add: list_all_iff)
  also have "\<dots> = rev t @ rev pre" using l by (simp add: rt x)
  finally have r: "rstrip (pre @ t @ post) = pre @ t" by (simp add: rstrip_def)
  from False obtain y ys where ty: "t = y # ys" by (cases t) auto
  have "dropWhile isspace (pre @ t) = dropWhile isspace t"
    using pre by (intro dropWhile_append2) (simp add: list_all_iff)
  also have "\<dots> = t" using h by (simp add: ty)
  finally show ?thesis by (simp add: strip_def lstrip_def r)
qed

lemma strip_exists:
  "\<exists>pre post. s = pre @ strip s @ post \<and> list_all isspace pre \<and> list_all isspace post"
proof -
  let ?post = "rev (takeWhile isspace (rev s))"
  let ?pre = "takeWhile isspace (rstrip s)"
  have "rstrip s @ ?post = rev (takeWhile isspace (rev s) @ dropWhile isspace (rev s))"
    unfolding rstrip_def by (simp only: rev_append)
  also have "\<dots> = s" by (simp only: takeWhile_dropWhile_id rev_rev_ident)
  finally have a: "s = rstrip s @ ?post" by (rule sym)
  have b: "rstrip s = ?pre @ strip s" by (simp add: strip_def lstrip_def)
  have "s = (?pre @ strip s) @ ?post" using a unfolding b [symmetric] .
  then have "s = ?pre @ strip s @ ?post" by (simp only: append_assoc)
  moreover have "list_all isspace ?pre" by (auto simp: list_all_iff dest: set_takeWhileD)
  moreover have "list_all isspace ?post" by (auto simp: list_all_iff dest: set_takeWhileD)
  ultimately show ?thesis by blast
qed










text \<open>
  Claim C6.  Let the raw string be \<open>t\<close> between two runs of whitespace, \<open>t\<close>
  neither beginning nor ending with whitespace, and let the string that reaches the
  \<open>!\<close> step (\<open>t\<close>, reduced to its final path component if it contains a
  backslash) contain a \<open>!\<close>.  If the substring after the last \<open>!\<close> is blank,
  that is, all its characters are whitespace, the string that reached the step is
  kept, and it is the result.  Otherwise that substring is some whitespace, a
  segment that begins and ends with a character that is not whitespace, and some
  whitespace, and the result is the segment, without a trailing \<open>.exe\<close>.
\<close>

theorem prettify_name_bang:
  "list_all isspace pre \<and> list_all isspace post
     \<and> (t = [] \<or> (\<not> isspace (hd t) \<and> \<not> isspace (last t)))
     \<and> CHR ''!'' \<in> set (reduce_path t)
   \<longrightarrow>
   (if list_all isspace (after_last (CHR ''!'') (reduce_path t))
    then prettify_name (pre @ t @ post) = reduce_path t
    else (\<exists>l segment r.
            after_last (CHR ''!'') (reduce_path t) = l @ segment @ r
            \<and> list_all isspace l \<and> list_all isspace r
            \<and> segment \<noteq> [] \<and> \<not> isspace (hd segment) \<and> \<not> isspace (last segment)
            \<and> prettify_name (pre @ t @ post) = strip_exe segment))"
proof (intro impI, elim conjE)
  assume pre: "list_all isspace pre" and post: "list_all isspace post"
    and t: "t = [] \<or> (\<not> isspace (hd t) \<and> \<not> isspace (last t))"
    and bang: "CHR ''!'' \<in> set (reduce_path t)"
  let ?raw = "pre @ t @ post"
  let ?seg = "after_last (CHR ''!'') (reduce_path t)"
  have st: "strip ?raw = t" using pre post t by (rule strip_decomp)
  have p: "prettify_name ?raw = strip_exe (bang_rule (reduce_path t))"
    by (simp add: prettify_name_normalize normalize_def st)
  show "if list_all isspace ?seg
        then prettify_name ?raw = reduce_path t
        else (\<exists>l segment r. ?seg = l @ segment @ r
                \<and> list_all isspace l \<and> list_all isspace r
                \<and> segment \<noteq> [] \<and> \<not> isspace (hd segment) \<and> \<not> isspace (last segment)
                \<and> prettify_name ?raw = strip_exe segment)"
  proof (cases "list_all isspace ?seg")
    case True
    then have blank: "strip ?seg = []" by (simp add: strip_eq_Nil_iff list_all_iff)
    have "strip_exe (reduce_path t) = reduce_path t"
      using blank_segment_kept [of ?raw] bang blank unfolding st by blast
    with True blank show ?thesis by (simp add: p bang_rule_def)
  next
    case False
    then have ne: "strip ?seg \<noteq> []" by (simp add: strip_eq_Nil_iff list_all_iff)
    obtain l r where d: "?seg = l @ strip ?seg @ r" "list_all isspace l" "list_all isspace r"
      using strip_exists [of ?seg] by blast
    have pn: "prettify_name ?raw = strip_exe (strip ?seg)"
      using bang ne by (simp add: p bang_rule_def)
    have "\<exists>l segment r. ?seg = l @ segment @ r
            \<and> list_all isspace l \<and> list_all isspace r
            \<and> segment \<noteq> [] \<and> \<not> isspace (hd segment) \<and> \<not> isspace (last segment)
            \<and> prettify_name ?raw = strip_exe segment"
      using d ne strip_hd [OF ne] strip_last [OF ne] pn by blast
    with False show ?thesis by (simp only: if_False)
  qed
qed

theorem prettify_name_bang_witness:
  "list_all isspace [] \<and> list_all isspace [CHR '' '', CHR 9]
   \<and> \<not> isspace (hd ''Package!   !'') \<and> \<not> isspace (last ''Package!   !'')
   \<and> CHR ''!'' \<in> set (reduce_path ''Package!   !'')
   \<and> list_all isspace (after_last (CHR ''!'') (reduce_path ''Package!   !''))
   \<and> prettify_name (''Package!   !'' @ [CHR '' '', CHR 9]) = ''Package!   !''
   \<and> prettify_name ''Package!   !'' = ''Package!   !''
   \<and> prettify_name ''Package!   '' = ''Package!''
   \<and> prettify_name ''Pkg!  '' = ''Pkg!''
   \<and> prettify_name ''Package!Sub!  MainApp.exe'' = ''MainApp''"
proof -
  let ?t = "''Package!   !''"
  have a: "list_all isspace []" by simp
  have b: "list_all isspace [CHR '' '', CHR 9]" by code_simp
  have c: "\<not> isspace (hd ?t)" by code_simp
  have d: "\<not> isspace (last ?t)" by code_simp
  have e: "CHR ''!'' \<in> set (reduce_path ?t)" by code_simp
  have f: "list_all isspace (after_last (CHR ''!'') (reduce_path ?t))" by code_simp
  have g: "reduce_path ?t = ?t" by code_simp
  from prettify_name_bang [of "[]" "[CHR '' '', CHR 9]" ?t] a b c d e f
  have "prettify_name ([] @ ?t @ [CHR '' '', CHR 9]) = reduce_path ?t"
    by (simp only: if_True simp_thms)
  then have h: "prettify_name (?t @ [CHR '' '', CHR 9]) = ?t"
    by (simp only: g append_Nil)
  have "normalize ?t = ?t" by code_simp
  then have i: "prettify_name ?t = ?t" by (simp only: prettify_name_normalize)
  have "normalize ''Package!   '' = ''Package!''" by code_simp
  then have j: "prettify_name ''Package!   '' = ''Package!''"
    by (simp only: prettify_name_normalize)
  have "normalize ''Pkg!  '' = ''Pkg!''" by code_simp
  then have k: "prettify_name ''Pkg!  '' = ''Pkg!''" by (simp only: prettify_name_normalize)
  have "normalize ''Package!Sub!  MainApp.exe'' = ''MainApp''" by code_simp
  then have l: "prettify_name ''Package!Sub!  MainApp.exe'' = ''MainApp''"
    by (simp only: prettify_name_normalize)
  show ?thesis by (intro conjI a b c d e f h i j k l)
qed

text \<open>
  Claim C10, as stated, says that \<open>prettify_name\<close> returns the trimmed segment
  after the last \<open>!\<close> whenever that segment is not blank.  For \<open>Pkg!App.exe\<close>
  the trimmed segment is \<open>App.exe\<close> and the result is \<open>App\<close>: the \<open>.exe\<close>
  step follows the \<open>!\<close> step.
\<close>

theorem bang_segment_counterexample:
  "CHR ''!'' \<in> set ''Pkg!App.exe''
   \<and> strip (after_last (CHR ''!'') ''Pkg!App.exe'') \<noteq> []
   \<and> prettify_name ''Pkg!App.exe'' \<noteq> strip (after_last (CHR ''!'') ''Pkg!App.exe'')"
  by code_simp

text \<open>
  Claim C10, amended.  When the \<open>!\<close> rule fires (the string that reaches
  it contains a \<open>!\<close> and the segment after the last \<open>!\<close> is not blank), the
  result of \<open>prettify_name\<close> is that segment without its surrounding whitespace
  and then without a trailing \<open>.exe\<close>; the trimmed segment begins and ends with
  a character that is not whitespace, and it is the result itself when it does not
  end in \<open>.exe\<close>.  The reduction to the final path component is triggered by the
  backslash only: a trimmed string without a backslash goes to the \<open>!\<close> step as
  it is, also when it contains a slash.
\<close>

theorem prettify_name_bang_fires:
  "(CHR ''!'' \<in> set (reduce_path (strip raw))
      \<and> strip (after_last (CHR ''!'') (reduce_path (strip raw))) \<noteq> []
    \<longrightarrow> prettify_name raw = strip_exe (strip (after_last (CHR ''!'') (reduce_path (strip raw))))
        \<and> \<not> isspace (hd (strip (after_last (CHR ''!'') (reduce_path (strip raw)))))
        \<and> \<not> isspace (last (strip (after_last (CHR ''!'') (reduce_path (strip raw)))))
        \<and> (\<not> endswith (lower (strip (after_last (CHR ''!'') (reduce_path (strip raw))))) ''.exe''
            \<longrightarrow> prettify_name raw = strip (after_last (CHR ''!'') (reduce_path (strip raw)))))
   \<and> (sep \<notin> set (strip raw) \<longrightarrow> prettify_name raw = strip_exe (bang_rule (strip raw)))"
  by (simp add: prettify_name_normalize normalize_def bang_rule_def reduce_path_def
      strip_hd strip_last strip_exe_lower endswith_lower_exe)

theorem prettify_name_bang_fires_witness:
  "CHR ''!'' \<in> set (reduce_path (strip ''Pkg!  App  ''))
   \<and> strip (after_last (CHR ''!'') (reduce_path (strip ''Pkg!  App  ''))) \<noteq> []
   \<and> \<not> endswith (lower (strip (after_last (CHR ''!'') (reduce_path (strip ''Pkg!  App  ''))))) ''.exe''
   \<and> prettify_name ''Pkg!  App  '' = ''App''
   \<and> sep \<notin> set (strip ''a/b.exe'') \<and> altsep \<in> set (strip ''a/b.exe'')
   \<and> prettify_name ''a/b.exe'' = ''a/b''"
proof -
  have a: "CHR ''!'' \<in> set (reduce_path (strip ''Pkg!  App  ''))" by code_simp
  have b: "strip (after_last (CHR ''!'') (reduce_path (strip ''Pkg!  App  ''))) \<noteq> []"
    by code_simp
  have c: "\<not> endswith (lower (strip (after_last (CHR ''!'')
             (reduce_path (strip ''Pkg!  App  ''))))) ''.exe''"
    by code_simp
  have d: "strip (after_last (CHR ''!'') (reduce_path (strip ''Pkg!  App  ''))) = ''App''"
    by code_simp
  have e: "sep \<notin> set (strip ''a/b.exe'')" by code_simp
  have f: "altsep \<in> set (strip ''a/b.exe'')" by code_simp
  have g: "strip_exe (bang_rule (strip ''a/b.exe'')) = ''a/b''" by code_simp
  from prettify_name_bang_fires [of "''Pkg!  App  ''"] a b c
  have "prettify_name ''Pkg!  App  ''
          = strip (after_last (CHR ''!'') (reduce_path (strip ''Pkg!  App  '')))"
    by blast
  then have h: "prettify_name ''Pkg!  App  '' = ''App''" by (simp only: d)
  from prettify_name_bang_fires [of "''a/b.exe''"] e
  have "prettify_name ''a/b.exe'' = strip_exe (bang_rule (strip ''a/b.exe''))" by blast
  then have i: "prettify_name ''a/b.exe'' = ''a/b''" by (simp only: g)
  from a b c e f h i show ?thesis by blast
qed

lemma strip_exe_Nil: "strip_exe m = [] \<longleftrightarrow> m = [] \<or> lower m = ''.exe''"
proof -
  have "length m = 4" if "lower m = ''.exe''"
  proof -
    have "length m = length (lower m)" by (simp add: lower_def)
    also have "\<dots> = 4" unfolding that by simp
    finally show ?thesis .
  qed
  then show ?thesis by (auto simp: strip_exe_lower)
qed

lemma bang_rule_Nil: "bang_rule n = [] \<longleftrightarrow> n = []"
  by (auto simp: bang_rule_def)

subsection \<open>The usage count of a value\<close>

lemma take4_drop4:
  "8 \<le> length xs \<Longrightarrow> take 4 (drop 4 xs) = [xs ! 4, xs ! 5, xs ! 6, xs ! 7]"
  by (auto simp: list_eq_iff_nth_eq nth_Cons' numeral_eq_Suc less_Suc_eq)

lemma decode_value_Some:
  "decode_value value_name (Some data) =
     Inr (prettify_name (rot_13 value_name),
          if length data < 8 then 0
          else unat (data ! 4) + 256 * unat (data ! 5)
               + 65536 * unat (data ! 6) + 16777216 * unat (data ! 7))"
  by (simp add: decode_value_def len_def unpack_from_I_def take4_drop4)

lemma decode_value_None: "decode_value value_name None = Inl TypeError"
  by (simp add: decode_value_def len_def)

subsection \<open>The name of a decoded value\<close>

text \<open>
  Claim C2, as stated, says that the name of a decoded value is never empty,
  the string before normalization being used when normalization erases it.
  The value name \<open>.rkr\<close> decodes to \<open>.exe\<close>, and its name is empty.
\<close>

theorem decode_value_empty_name:
  "rot_13 ''.rkr'' = ''.exe''
   \<and> decode_value ''.rkr'' (Some [0, 0, 0, 0, 0, 0, 0, 0]) = Inr ([], 0)"
proof -
  have "rot_13 ''.rkr'' = ''.exe''" by code_simp
  moreover have "prettify_name (rot_13 ''.rkr'') = []" by code_simp
  ultimately show ?thesis by (simp add: decode_value_Some)
qed

text \<open>
  Claim C2, amended.  For every value name and every \<open>bytes\<close> object as data,
  decoding returns the name \<open>prettify_name (rot_13 value_name)\<close>; nothing
  replaces an empty name.  The name is empty exactly when the decoded string,
  trimmed and reduced to its final path component, is empty, or is \<open>.exe\<close> in some
  letter case after the \<open>!\<close> rule.
\<close>

theorem decode_value_name:
  "(\<exists>count. decode_value value_name (Some value_data)
              = Inr (prettify_name (rot_13 value_name), count))
   \<and> (prettify_name (rot_13 value_name) = [] \<longleftrightarrow>
        reduce_path (strip (rot_13 value_name)) = []
        \<or> lower (bang_rule (reduce_path (strip (rot_13 value_name)))) = ''.exe'')"
  by (simp add: decode_value_Some prettify_name_normalize normalize_def
      strip_exe_Nil bang_rule_Nil)

lemma decode_value_record:
  "snd r \<noteq> [] \<Longrightarrow>
     decode_value (fst r) (Reg2Py (snd r)) = Inr (record_name r, record_count r)"
  by (simp add: record_name_def record_count_def Reg2Py_def decode_value_Some)

lemma enum_loop_fold:
  "enum_loop key i usage_dict =
     (if list_all (\<lambda>r. snd r \<noteq> []) (drop i key)
      then Inr (fold add_record (drop i key) usage_dict) else Inl TypeError)"
proof (induction key i usage_dict rule: enum_loop.induct)
  case (1 key i usage_dict)
  show ?case
  proof (cases "i < length key")
    case True
    let ?r = "key ! i"
    have e: "EnumValue key i = Inr (fst ?r, Reg2Py (snd ?r))"
      using True by (simp add: EnumValue_def)
    have d: "drop i key = ?r # drop (i + 1) key"
      using True Cons_nth_drop_Suc [of i key] by simp
    show ?thesis
    proof (cases "snd ?r = []")
      case True
      then have "enum_loop key i usage_dict = Inl TypeError"
        by (subst enum_loop.simps)
           (simp add: e Reg2Py_def decode_value_None is_OSError_def)
      then show ?thesis using True by (simp add: d)
    next
      case False
      have ar: "dict_set usage_dict (record_name ?r)
                  (dict_get usage_dict (record_name ?r) 0 + record_count ?r)
                = add_record ?r usage_dict"
        by (simp add: add_record_def)
      have "enum_loop key i usage_dict = enum_loop key (i + 1) (add_record ?r usage_dict)"
        by (subst enum_loop.simps) (simp add: e decode_value_record [OF False] ar)
      also have "\<dots> = (if list_all (\<lambda>r. snd r \<noteq> []) (drop (i + 1) key)
                        then Inr (fold add_record (drop (i + 1) key) (add_record ?r usage_dict))
                        else Inl TypeError)"
        using "1.IH" [OF e refl decode_value_record [OF False] refl] unfolding ar .
      finally show ?thesis using False by (simp add: d)
    qed
  next
    case False
    then show ?thesis
      by (subst enum_loop.simps) (simp add: EnumValue_def is_OSError_def)
  qed
qed

lemma guid_loop_fold:
  "guid_loop reg guids usage_dict =
     (if list_all (\<lambda>r. snd r \<noteq> []) (concat (map (section_values reg) guids))
      then Inr (fold add_record (concat (map (section_values reg) guids)) usage_dict)
      else Inl TypeError)"
  by (induction guids arbitrary: usage_dict)
     (auto simp: OpenKey_def section_values_def enum_loop_fold split: option.splits)

lemma get_userassist_usage_fold:
  "get_userassist_usage reg =
     (if list_all (\<lambda>r. snd r \<noteq> []) (records reg)
      then Inr (fold add_record (records reg) []) else Inl TypeError)"
  by (simp add: get_userassist_usage_def guid_loop_fold records_def)

text \<open>
  Claim C3.  The data of a value reaches the decoding as \<open>winreg\<close> hands it over.
  For data that is not empty the decoding does not raise, and the count is 0 below
  8 bytes and the unsigned little-endian number in the bytes 4 to 7 otherwise.
  Data of length zero arrives as \<open>None\<close>, and \<open>len(value_data)\<close> raises a
  \<open>TypeError\<close> that nothing catches: reading a store that holds such a value
  raises.
\<close>

theorem zero_length_value_raises:
  "decode_value value_name (Reg2Py data) =
     (if data = [] then Inl TypeError
      else Inr (prettify_name (rot_13 value_name),
                if length data < 8 then 0
                else unat (data ! 4) + 256 * unat (data ! 5)
                     + 65536 * unat (data ! 6) + 16777216 * unat (data ! 7)))
   \<and> EnumValue [(''Abgrcnq'', [])] 0 = Inr (''Abgrcnq'', None)
   \<and> get_userassist_usage [key_path (USERASSIST_GUIDS ! 0) \<mapsto> [(''Abgrcnq'', [])]]
       = Inl TypeError"
proof -
  have "records [key_path (USERASSIST_GUIDS ! 0) \<mapsto> [(''Abgrcnq'', [])]]
          = [(''Abgrcnq'', [])]"
    by (simp add: records_def section_values_def USERASSIST_GUIDS_def key_path_def)
  then have "get_userassist_usage [key_path (USERASSIST_GUIDS ! 0) \<mapsto> [(''Abgrcnq'', [])]]
          = Inl TypeError"
    by (simp add: get_userassist_usage_fold)
  then show ?thesis
    by (simp add: Reg2Py_def decode_value_Some decode_value_None EnumValue_def)
qed

subsection \<open>Aggregation of the usage counts\<close>

lemma map_of_dict_set: "map_of (dict_set d k v) = (map_of d)(k \<mapsto> v)"
  by (induction d) auto

lemma map_of_add_record:
  "map_of (add_record r d) name =
     (if record_name r = name
      then Some ((case map_of d name of None \<Rightarrow> 0 | Some c \<Rightarrow> c) + record_count r)
      else map_of d name)"
  by (auto simp: add_record_def map_of_dict_set dict_get_def)

lemma filter_record_name_Nil:
  "name \<notin> record_name ` set rs \<Longrightarrow> filter (\<lambda>r. record_name r = name) rs = []"
  by (induction rs) auto

lemma map_of_fold_add_record:
  "map_of (fold add_record rs d) name =
     (if name \<in> record_name ` set rs
      then Some ((case map_of d name of None \<Rightarrow> 0 | Some c \<Rightarrow> c)
                 + sum_list (map record_count (filter (\<lambda>r. record_name r = name) rs)))
      else map_of d name)"
proof (induction rs arbitrary: d)
  case Nil
  then show ?case by simp
next
  case (Cons r rs)
  let ?P = "\<lambda>r. record_name r = name"
  have IH: "map_of (fold add_record (r # rs) d) name =
     (if name \<in> record_name ` set rs
      then Some ((case map_of (add_record r d) name of None \<Rightarrow> 0 | Some c \<Rightarrow> c)
                 + sum_list (map record_count (filter ?P rs)))
      else map_of (add_record r d) name)"
    using Cons.IH [of "add_record r d"] by simp
  have empty: "filter ?P rs = []" if "name \<notin> record_name ` set rs"
    using that by (rule filter_record_name_Nil)
  show ?case
  proof (cases "record_name r = name")
    case True
    then have in_set: "name \<in> record_name ` set (r # rs)" by auto
    have head: "map_of (add_record r d) name
                  = Some ((case map_of d name of None \<Rightarrow> 0 | Some c \<Rightarrow> c) + record_count r)"
      using True by (simp add: map_of_add_record)
    have flt: "filter ?P (r # rs) = r # filter ?P rs" using True by simp
    show ?thesis
      unfolding IH head flt using in_set empty by (cases "name \<in> record_name ` set rs") simp_all
  next
    case False
    then have in_set: "name \<in> record_name ` set (r # rs) \<longleftrightarrow> name \<in> record_name ` set rs"
      by auto
    have head: "map_of (add_record r d) name = map_of d name"
      using False by (simp add: map_of_add_record)
    have flt: "filter ?P (r # rs) = filter ?P rs" using False by simp
    show ?thesis unfolding IH head flt in_set by (rule refl)
  qed
qed

lemma sum_list_filter_mset:
  fixes f :: "'a \<Rightarrow> nat"
  assumes "mset rs' = mset rs"
  shows "sum_list (map f (filter P rs')) = sum_list (map f (filter P rs))"
proof -
  from assms have "mset (map f (filter P rs')) = mset (map f (filter P rs))"
    by (metis mset_filter mset_map)
  then have "sum_mset (mset (map f (filter P rs'))) = sum_mset (mset (map f (filter P rs)))"
    by (rule arg_cong)
  then show ?thesis by (simp only: sum_mset_sum_list)
qed

text \<open>
  Claim C7.  Reading the usage store returns a dictionary exactly when no value
  read has data of length zero.  In the dictionary returned, a name is a key exactly
  when some raw record decodes to that name, and its value is the sum of the counts
  of all the records that decode to it.  Two stores holding the same records in any
  order and in any sections give the same value at every name.  Two records that
  decode to \<open>Notepad\<close> with the counts 3 and 5 give \<open>Notepad: 8\<close>.
\<close>

theorem usage_dict_sums:
  "((\<exists>usage_dict. get_userassist_usage reg = Inr usage_dict)
      \<longleftrightarrow> (\<forall>r \<in> set (records reg). snd r \<noteq> []))
   \<and> (\<forall>usage_dict. get_userassist_usage reg = Inr usage_dict \<longrightarrow>
        (\<forall>name. map_of usage_dict name =
           (if name \<in> record_name ` set (records reg)
            then Some (sum_list (map record_count
                         (filter (\<lambda>r. record_name r = name) (records reg))))
            else None))
        \<and> (\<forall>reg' usage_dict'.
             mset (records reg') = mset (records reg)
             \<and> get_userassist_usage reg' = Inr usage_dict'
             \<longrightarrow> map_of usage_dict' = map_of usage_dict))"
proof -
  let ?ok = "\<lambda>reg. list_all (\<lambda>r. snd r \<noteq> []) (records reg)"
  let ?d = "fold add_record (records reg) []"
  have a: "(\<exists>usage_dict. get_userassist_usage reg = Inr usage_dict)
             \<longleftrightarrow> (\<forall>r \<in> set (records reg). snd r \<noteq> [])"
    by (simp add: get_userassist_usage_fold list_all_iff)
  have b: "\<forall>name. map_of ?d name =
           (if name \<in> record_name ` set (records reg)
            then Some (sum_list (map record_count
                         (filter (\<lambda>r. record_name r = name) (records reg))))
            else None)"
    by (simp add: map_of_fold_add_record)
  have c: "\<forall>reg' usage_dict'.
           mset (records reg') = mset (records reg) \<and> get_userassist_usage reg' = Inr usage_dict'
           \<longrightarrow> map_of usage_dict' = map_of ?d"
  proof (intro allI impI, elim conjE)
    fix reg' usage_dict'
    assume m: "mset (records reg') = mset (records reg)"
      and g: "get_userassist_usage reg' = Inr usage_dict'"
    from g have u: "usage_dict' = fold add_record (records reg') []"
      unfolding get_userassist_usage_fold by (simp split: if_splits)
    have st: "set (records reg') = set (records reg)" using m by (rule mset_eq_setD)
    show "map_of usage_dict' = map_of ?d"
    proof
      fix name
      have "sum_list (map record_count (filter (\<lambda>r. record_name r = name) (records reg')))
            = sum_list (map record_count (filter (\<lambda>r. record_name r = name) (records reg)))"
        using m by (rule sum_list_filter_mset)
      then show "map_of usage_dict' name = map_of ?d name"
        unfolding u map_of_fold_add_record st by simp
    qed
  qed
  have d: "usage_dict = ?d" if "get_userassist_usage reg = Inr usage_dict" for usage_dict
    using that unfolding get_userassist_usage_fold by (simp split: if_splits)
  from a b c d show ?thesis by blast
qed

theorem usage_dict_sums_witness:
  "get_userassist_usage
     [key_path (USERASSIST_GUIDS ! 0) \<mapsto> [(''Abgrcnq.rkr'', [0, 0, 0, 0, 3, 0, 0, 0])],
      key_path (USERASSIST_GUIDS ! 1) \<mapsto>
        [(CHR ''P'' # CHR '':'' # sep # ''Abgrcnq.RKR'', [0, 0, 0, 0, 5, 0, 0, 0])]]
     = Inr [(''Notepad'', 8)]
   \<and> mset (records
        [key_path (USERASSIST_GUIDS ! 0) \<mapsto>
           [(CHR ''P'' # CHR '':'' # sep # ''Abgrcnq.RKR'', [0, 0, 0, 0, 5, 0, 0, 0]),
            (''Abgrcnq.rkr'', [0, 0, 0, 0, 3, 0, 0, 0])]])
     = mset (records
        [key_path (USERASSIST_GUIDS ! 0) \<mapsto> [(''Abgrcnq.rkr'', [0, 0, 0, 0, 3, 0, 0, 0])],
         key_path (USERASSIST_GUIDS ! 1) \<mapsto>
           [(CHR ''P'' # CHR '':'' # sep # ''Abgrcnq.RKR'', [0, 0, 0, 0, 5, 0, 0, 0])]])
   \<and> get_userassist_usage
        [key_path (USERASSIST_GUIDS ! 0) \<mapsto>
           [(CHR ''P'' # CHR '':'' # sep # ''Abgrcnq.RKR'', [0, 0, 0, 0, 5, 0, 0, 0]),
            (''Abgrcnq.rkr'', [0, 0, 0, 0, 3, 0, 0, 0])]]
     = Inr [(''Notepad'', 8)]
   \<and> map_of [(''Notepad'', 8 :: nat)] = map_of [(''Notepad'', 8)]"
proof -
  let ?a = "(''Abgrcnq.rkr'', [0, 0, 0, 0, 3, 0, 0, 0]) :: string \<times> byte list"
  let ?b = "(CHR ''P'' # CHR '':'' # sep # ''Abgrcnq.RKR'', [0, 0, 0, 0, 5, 0, 0, 0])
              :: string \<times> byte list"
  let ?reg = "[key_path (USERASSIST_GUIDS ! 0) \<mapsto> [?a],
               key_path (USERASSIST_GUIDS ! 1) \<mapsto> [?b]]"
  let ?reg' = "[key_path (USERASSIST_GUIDS ! 0) \<mapsto> [?b, ?a]]"
  have "prettify_name (rot_13 ''Abgrcnq.rkr'') = ''Notepad''" by code_simp
  then have na: "record_name ?a = ''Notepad''"
    by (simp add: record_name_def Reg2Py_def decode_value_Some)
  have "prettify_name (rot_13 (CHR ''P'' # CHR '':'' # sep # ''Abgrcnq.RKR'')) = ''Notepad''"
    by code_simp
  then have nb: "record_name ?b = ''Notepad''"
    by (simp add: record_name_def Reg2Py_def decode_value_Some)
  have ca: "record_count ?a = 3"
    by (simp add: record_count_def Reg2Py_def decode_value_Some)
  have cb: "record_count ?b = 5"
    by (simp add: record_count_def Reg2Py_def decode_value_Some)
  have r: "records ?reg = [?a, ?b]"
    by (simp add: records_def section_values_def USERASSIST_GUIDS_def key_path_def)
  have r': "records ?reg' = [?b, ?a]"
    by (simp add: records_def section_values_def USERASSIST_GUIDS_def key_path_def)
  have e: "get_userassist_usage ?reg = Inr [(''Notepad'', 8)]"
    unfolding get_userassist_usage_fold r
    by (simp add: add_record_def na nb ca cb dict_get_def)
  have e': "get_userassist_usage ?reg' = Inr [(''Notepad'', 8)]"
    unfolding get_userassist_usage_fold r'
    by (simp add: add_record_def na nb ca cb dict_get_def)
  have m: "mset (records ?reg') = mset (records ?reg)" unfolding r r' by simp
  from usage_dict_sums [of ?reg] e
  have "\<forall>reg' usage_dict'.
           mset (records reg') = mset (records ?reg) \<and> get_userassist_usage reg' = Inr usage_dict'
           \<longrightarrow> map_of usage_dict' = map_of [(''Notepad'', 8)]"
    by blast
  with m e' have "map_of [(''Notepad'', 8 :: nat)] = map_of [(''Notepad'', 8)]"
    by blast
  with e e' m show ?thesis by blast
qed


subsection \<open>Absent sources\<close>






subsection \<open>The export\<close>

lemma translate_newlines_append:
  "translate_newlines (a @ b) = translate_newlines a @ translate_newlines b"
  by (simp add: translate_newlines_def)

lemma encode_utf8_append: "encode_utf8 (a @ b) = encode_utf8 a @ encode_utf8 b"
  by (simp add: encode_utf8_def)

lemma write_loop_concat:
  "write_loop names f
     = f @ encode_utf8 (translate_newlines (concat (map (\<lambda>name. name @ [CHR 10]) names)))"
  by (induction names arbitrary: f)
     (simp_all add: file_write_def translate_newlines_def encode_utf8_def)

lemma encode_utf8_ascii: "\<forall>c \<in> set s. ord c < 128 \<Longrightarrow> encode_utf8 s = ascii s"
  by (induction s) (simp_all add: encode_utf8_def ascii_def)

lemma translate_newlines_none: "CHR 10 \<notin> set s \<Longrightarrow> translate_newlines s = s"
  by (induction s) (auto simp: translate_newlines_def)

lemma ord_newline: "ord (CHR 10) = 10" "ord (CHR 13) = 13"
  by (simp_all add: ord_def)

lemma line_bytes:
  assumes "\<forall>c \<in> set name. ord c < 128 \<and> c \<noteq> CHR 10"
  shows "encode_utf8 (translate_newlines (name @ [CHR 10])) = ascii name @ [13, 10]"
proof -
  from assms have n: "CHR 10 \<notin> set name" and a: "\<forall>c \<in> set name. ord c < 128" by auto
  have "translate_newlines (name @ [CHR 10]) = name @ [CHR 13, CHR 10]"
    by (simp add: translate_newlines_append translate_newlines_none [OF n])
       (simp add: translate_newlines_def)
  then show ?thesis
    using a by (simp add: encode_utf8_append encode_utf8_ascii)
               (simp add: encode_utf8_def ord_newline)
qed

lemma lines_bytes:
  "\<forall>name \<in> set names. \<forall>c \<in> set name. ord c < 128 \<and> c \<noteq> CHR 10 \<Longrightarrow>
     encode_utf8 (translate_newlines (concat (map (\<lambda>name. name @ [CHR 10]) names)))
       = concat (map (\<lambda>name. ascii name @ [13, 10]) names)"
proof (induction names)
  case Nil
  then show ?case by (simp add: encode_utf8_def translate_newlines_def)
next
  case (Cons name names)
  then have "encode_utf8 (translate_newlines (name @ [CHR 10])) = ascii name @ [13, 10]"
    by (intro line_bytes) simp
  with Cons show ?case
    by (simp add: translate_newlines_append encode_utf8_append del: append_assoc
             flip: append_assoc)
qed

lemma casefold_ascii:
  "\<forall>c \<in> set s. ord c < 128 \<Longrightarrow>
     casefold s = map (\<lambda>c. if 65 \<le> ord c \<and> ord c \<le> 90 then ord c + 32 else ord c) s"
  by (induction s) (auto simp: casefold_def casefold_chr_def Let_def)


text \<open>
  Claim C8, as stated, has the file content \<open>Calc\nNotepad\n\<close> for the list
  \<open>Notepad\<close> (2, set), \<open>Calc\<close> (2, set), \<open>Paint\<close> (10, not set).  The file is
  written in text mode, and on Windows its content is \<open>Calc\r\nNotepad\r\n\<close>.
\<close>

theorem on_save_as_txt_crlf_counterexample:
  "on_save_as_txt ''out.txt''
     [(''Notepad'', 2, True), (''Calc'', 2, True), (''Paint'', 10, False)]
     = Some (ascii (''Calc'' @ [CHR 13, CHR 10] @ ''Notepad'' @ [CHR 13, CHR 10]))
   \<and> ascii (''Calc'' @ [CHR 13, CHR 10] @ ''Notepad'' @ [CHR 13, CHR 10])
       \<noteq> ascii (''Calc'' @ [CHR 10] @ ''Notepad'' @ [CHR 10])"
proof -
  let ?l = "[(''Notepad'', 2, True), (''Calc'', 2, True), (''Paint'', 10, False)] :: entry list"
  have s: "sort_key casefold [''Notepad'', ''Calc''] = [''Calc'', ''Notepad'']" by code_simp
  have o: "on_save_as_txt ''out.txt'' ?l = Some (write_loop [''Calc'', ''Notepad''] [])"
    by (simp add: on_save_as_txt_def s del: sort_key_simps write_loop.simps)
  have "encode_utf8 (translate_newlines
          (concat (map (\<lambda>name. name @ [CHR 10]) [''Calc'', ''Notepad''])))
        = concat (map (\<lambda>name. ascii name @ [13, 10]) [''Calc'', ''Notepad''])"
    by (rule lines_bytes) (simp add: ord_def)
  then have w: "write_loop [''Calc'', ''Notepad''] []
                  = concat (map (\<lambda>name. ascii name @ [13, 10]) [''Calc'', ''Notepad''])"
    by (simp only: write_loop_concat append_Nil)
  show ?thesis unfolding o w by (simp add: ascii_def ord_def)
qed

text \<open>
  Claim C8, amended.  When the save dialog returns a file name, the text written
  is the concatenation of lines, one per name and each ended by a newline, and
  nothing else; the file holds that text in UTF-8 with every newline stored as
  carriage return and line feed.  The names are exactly the names of the entries
  whose Start Menu flag is set (with their multiplicities), in ascending order of
  their case-folded forms.  When the names are ASCII without newlines, the content
  is each name followed by the bytes 13 and 10, and the names are in alphabetical
  order with every capital letter A-Z read as its small letter.
\<close>

theorem on_save_as_txt_content:
  "filename \<noteq> [] \<longrightarrow>
     (\<exists>names. on_save_as_txt filename final_list
                = Some (encode_utf8 (translate_newlines
                          (concat (map (\<lambda>name. name @ [CHR 10]) names))))
       \<and> mset names = mset (map fst (filter (\<lambda>entry. snd (snd entry)) final_list))
       \<and> sorted (map casefold names)
       \<and> ((\<forall>name \<in> set names. \<forall>c \<in> set name. ord c < 128 \<and> c \<noteq> CHR 10) \<longrightarrow>
            on_save_as_txt filename final_list
              = Some (concat (map (\<lambda>name. ascii name @ [13, 10]) names))
            \<and> sorted (map (map (\<lambda>c. if 65 \<le> ord c \<and> ord c \<le> 90
                                      then ord c + 32 else ord c)) names)))"
proof
  assume f: "filename \<noteq> []"
  let ?only = "map fst (filter (\<lambda>(app_name, _, is_start_menu). is_start_menu) final_list)"
  let ?names = "sort_key casefold ?only"
  let ?fold = "\<lambda>c. if 65 \<le> ord c \<and> ord c \<le> 90 then ord c + 32 else ord c"
  have flt: "(\<lambda>(app_name, _, is_start_menu). is_start_menu) = (\<lambda>entry :: entry. snd (snd entry))"
    by (simp add: fun_eq_iff)
  have a: "on_save_as_txt filename final_list
          = Some (encode_utf8 (translate_newlines
                    (concat (map (\<lambda>name. name @ [CHR 10]) ?names))))"
    using f by (simp add: on_save_as_txt_def write_loop_concat)
  have b: "mset ?names = mset (map fst (filter (\<lambda>entry. snd (snd entry)) final_list))"
    unfolding flt by simp
  have c: "sorted (map casefold ?names)"
    by (rule sorted_sort_key)
  have d: "on_save_as_txt filename final_list
              = Some (concat (map (\<lambda>name. ascii name @ [13, 10]) ?names))
            \<and> sorted (map (map ?fold) ?names)"
    if asc: "\<forall>name \<in> set ?names. \<forall>c \<in> set name. ord c < 128 \<and> c \<noteq> CHR 10"
  proof
    show "on_save_as_txt filename final_list
              = Some (concat (map (\<lambda>name. ascii name @ [13, 10]) ?names))"
      unfolding a using lines_bytes [OF asc] by simp
    have "map casefold ?names = map (map ?fold) ?names"
      using asc by (intro map_cong refl casefold_ascii) blast
    with c show "sorted (map (map ?fold) ?names)" by simp
  qed
  from a b c d show "\<exists>names. on_save_as_txt filename final_list
                = Some (encode_utf8 (translate_newlines
                          (concat (map (\<lambda>name. name @ [CHR 10]) names))))
       \<and> mset names = mset (map fst (filter (\<lambda>entry. snd (snd entry)) final_list))
       \<and> sorted (map casefold names)
       \<and> ((\<forall>name \<in> set names. \<forall>c \<in> set name. ord c < 128 \<and> c \<noteq> CHR 10) \<longrightarrow>
            on_save_as_txt filename final_list
              = Some (concat (map (\<lambda>name. ascii name @ [13, 10]) names))
            \<and> sorted (map (map ?fold) names))"
    by blast
qed


theorem on_save_as_txt_content_witness:
  "''out.txt'' \<noteq> []
   \<and> on_save_as_txt ''out.txt''
        [(''Zeta'', 1, True), (''apple'', 0, True), (''Calc'', 2, True), (''Paint'', 10, False)]
      = Some (ascii (''apple'' @ [CHR 13, CHR 10] @ ''Calc'' @ [CHR 13, CHR 10]
                     @ ''Zeta'' @ [CHR 13, CHR 10]))
   \<and> (\<exists>names. on_save_as_txt ''out.txt''
                  [(''Zeta'', 1, True), (''apple'', 0, True), (''Calc'', 2, True),
                   (''Paint'', 10, False)]
                = Some (encode_utf8 (translate_newlines
                          (concat (map (\<lambda>name. name @ [CHR 10]) names))))
         \<and> mset names = {#''Zeta'', ''apple'', ''Calc''#}
         \<and> sorted (map casefold names))"
proof -
  let ?l = "[(''Zeta'', 1, True), (''apple'', 0, True), (''Calc'', 2, True),
             (''Paint'', 10, False)] :: entry list"
  let ?sorted = "[''apple'', ''Calc'', ''Zeta'']"
  have n: "''out.txt'' \<noteq> []" by simp
  have s: "sort_key casefold [''Zeta'', ''apple'', ''Calc''] = ?sorted" by code_simp
  have o: "on_save_as_txt ''out.txt'' ?l = Some (write_loop ?sorted [])"
    by (simp add: on_save_as_txt_def s del: sort_key_simps write_loop.simps)
  have "encode_utf8 (translate_newlines (concat (map (\<lambda>name. name @ [CHR 10]) ?sorted)))
        = concat (map (\<lambda>name. ascii name @ [13, 10]) ?sorted)"
    by (rule lines_bytes) (simp add: ord_def)
  then have w: "write_loop ?sorted [] = concat (map (\<lambda>name. ascii name @ [13, 10]) ?sorted)"
    by (simp only: write_loop_concat append_Nil)
  have e: "on_save_as_txt ''out.txt'' ?l
             = Some (ascii (''apple'' @ [CHR 13, CHR 10] @ ''Calc'' @ [CHR 13, CHR 10]
                            @ ''Zeta'' @ [CHR 13, CHR 10]))"
    unfolding o w by (simp add: ascii_def ord_def)
  have m: "mset (map fst (filter (\<lambda>entry. snd (snd entry)) ?l))
             = {#''Zeta'', ''apple'', ''Calc''#}"
    by simp
  from on_save_as_txt_content [of "''out.txt''" ?l] n
  have "\<exists>names. on_save_as_txt ''out.txt'' ?l
                = Some (encode_utf8 (translate_newlines
                          (concat (map (\<lambda>name. name @ [CHR 10]) names))))
         \<and> mset names = {#''Zeta'', ''apple'', ''Calc''#}
         \<and> sorted (map casefold names)"
    unfolding m by blast
  with n e show ?thesis by (intro conjI)
qed

end
